theory Spec2Isabelle
  imports Complex_Main
begin

unbundle bit_operations_syntax

section \<open>Values, errors and the image codec boundary\<close>

text \<open>
  The program is Python: its integers are unbounded and are modelled as \<open>int\<close>; lengths
  and indices (\<open>len\<close>, slice bounds) are \<open>nat\<close>. A pixel of an image converted to RGB is a
  triple of channel values, and \<open>list(img.getdata())\<close> is the list of pixels in raster order.
  Opening, converting and saving the image is the work of the Pillow library: the model starts
  at the decoded pixel list and ends at the list handed to \<open>img.putdata\<close>.

  A text (\<open>str\<close>) is the list of its code points; \<open>bytes\<close> is a list of integers.
\<close>

type_synonym pixel = "int \<times> int \<times> int"

text \<open>
  Every \<open>raise\<close> of the source is a value. The four \<open>ValueError\<close>s of \<open>stego_tool.py\<close> differ
  by their message, and the constructors follow the messages:
  \<^item> \<open>RangeError\<close>: \<open>ValueError("Message length must fit in 32 bits")\<close>, in \<open>_pack_length\<close>;
  \<^item> \<open>FormatError\<close>: \<open>ValueError("Invalid length header")\<close>, in \<open>_unpack_length\<close>;
  \<^item> \<open>CapacityError c n\<close>: \<open>ValueError(f"Message too large for image. Capacity={c} bytes,
    needed={n} bytes.")\<close>, in \<open>embed_message\<close>;
  \<^item> \<open>TruncatedDataError\<close>: \<open>ValueError("Image does not contain a complete message.")\<close>, in
    \<open>extract_message\<close>: the message is constant and carries no number.
  Two more come from built-ins: \<open>str.encode\<close> raises \<open>UnicodeEncodeError\<close> on a surrogate
  code point, and \<open>bytearray.append\<close> raises a \<open>ValueError\<close> ("byte must be in range(0, 256)")
  on a value outside a byte, here \<open>ByteRangeError\<close>.
\<close>

datatype error =
    RangeError
  | FormatError
  | CapacityError int int
  | TruncatedDataError
  | UnicodeEncodeError
  | ByteRangeError

text \<open>The channel values of a pixel list, interleaved R, G, B in raster order.\<close>

definition channels :: "pixel list \<Rightarrow> int list" where
  "channels px = concat (map (\<lambda>(r, g, b). [r, g, b]) px)"



section \<open>Built-ins of the language: UTF-8 and fixed-width integers\<close>

text \<open>
  \<open>str.encode("utf-8")\<close>: one to four bytes per code point; a surrogate (U+D800 to U+DFFF)
  is refused. A \<open>str\<close> holds code points from 0 to 0x10FFFF only; the last branch covers the
  integers that are no code point.
\<close>

definition utf8_encode_cp :: "int \<Rightarrow> error + int list" where
  "utf8_encode_cp c =
    (if 0 \<le> c \<and> c < 0x80 then Inr [c]
     else if 0x80 \<le> c \<and> c < 0x800 then Inr [0xC0 + c div 64, 0x80 + c mod 64]
     else if 0xD800 \<le> c \<and> c \<le> 0xDFFF then Inl UnicodeEncodeError
     else if 0x800 \<le> c \<and> c < 0x10000 then
       Inr [0xE0 + c div 4096, 0x80 + c div 64 mod 64, 0x80 + c mod 64]
     else if 0x10000 \<le> c \<and> c \<le> 0x10FFFF then
       Inr [0xF0 + c div 262144, 0x80 + c div 4096 mod 64, 0x80 + c div 64 mod 64,
            0x80 + c mod 64]
     else Inl UnicodeEncodeError)"

fun utf8_encode :: "int list \<Rightarrow> error + int list" where
  "utf8_encode [] = Inr []"
| "utf8_encode (c # cs) =
    (case utf8_encode_cp c of
       Inl e \<Rightarrow> Inl e
     | Inr bs \<Rightarrow> (case utf8_encode cs of Inl e \<Rightarrow> Inl e | Inr rest \<Rightarrow> Inr (bs @ rest)))"

text \<open>
  \<open>bytes.decode("utf-8", errors="replace")\<close>: never raises. A byte that cannot start a
  sequence, and the longest valid start of a sequence that its next byte breaks, each become
  one U+FFFD and decoding resumes at the offending byte; a valid start cut off by the end of
  the data becomes one U+FFFD. Overlong forms, surrogates and values above 0x10FFFF are
  refused at the second byte.
\<close>

definition is_cont :: "int \<Rightarrow> bool" where
  "is_cont b = (0x80 \<le> b \<and> b < 0xC0)"

definition second3_ok :: "int \<Rightarrow> int \<Rightarrow> bool" where
  "second3_ok b0 b1 =
    (is_cont b1 \<and> \<not> (b0 = 0xE0 \<and> b1 < 0xA0) \<and> \<not> (b0 = 0xED \<and> 0xA0 \<le> b1))"

definition second4_ok :: "int \<Rightarrow> int \<Rightarrow> bool" where
  "second4_ok b0 b1 =
    (is_cont b1 \<and> \<not> (b0 = 0xF0 \<and> b1 < 0x90) \<and> \<not> (b0 = 0xF4 \<and> 0x90 \<le> b1))"

fun utf8_decode :: "int list \<Rightarrow> int list" where
  "utf8_decode [] = []"
| "utf8_decode (b0 # rest) =
    (if b0 < 0x80 then b0 # utf8_decode rest
     else if b0 < 0xC2 then 0xFFFD # utf8_decode rest
     else if b0 < 0xE0 then
       (case rest of
          [] \<Rightarrow> [0xFFFD]
        | b1 # r1 \<Rightarrow>
            if is_cont b1 then ((b0 - 0xC0) * 64 + (b1 - 0x80)) # utf8_decode r1
            else 0xFFFD # utf8_decode rest)
     else if b0 < 0xF0 then
       (case rest of
          [] \<Rightarrow> [0xFFFD]
        | b1 # r1 \<Rightarrow>
            if \<not> second3_ok b0 b1 then 0xFFFD # utf8_decode rest
            else (case r1 of
                    [] \<Rightarrow> [0xFFFD]
                  | b2 # r2 \<Rightarrow>
                      if is_cont b2 then
                        ((b0 - 0xE0) * 4096 + (b1 - 0x80) * 64 + (b2 - 0x80)) # utf8_decode r2
                      else 0xFFFD # utf8_decode r1))
     else if b0 < 0xF5 then
       (case rest of
          [] \<Rightarrow> [0xFFFD]
        | b1 # r1 \<Rightarrow>
            if \<not> second4_ok b0 b1 then 0xFFFD # utf8_decode rest
            else (case r1 of
                    [] \<Rightarrow> [0xFFFD]
                  | b2 # r2 \<Rightarrow>
                      if \<not> is_cont b2 then 0xFFFD # utf8_decode r1
                      else (case r2 of
                              [] \<Rightarrow> [0xFFFD]
                            | b3 # r3 \<Rightarrow>
                                if is_cont b3 then
                                  ((b0 - 0xF0) * 262144 + (b1 - 0x80) * 4096
                                     + (b2 - 0x80) * 64 + (b3 - 0x80)) # utf8_decode r3
                                else 0xFFFD # utf8_decode r2)))
     else 0xFFFD # utf8_decode rest)"

text \<open>\<open>n.to_bytes(4, "big")\<close> for \<open>0 \<le> n < 2^32\<close>, and \<open>int.from_bytes(bs, "big")\<close>.\<close>

definition to_bytes_4_big :: "int \<Rightarrow> int list" where
  "to_bytes_4_big n =
    [n div 16777216 mod 256, n div 65536 mod 256, n div 256 mod 256, n mod 256]"

definition from_bytes_big :: "int list \<Rightarrow> int" where
  "from_bytes_big bs = foldl (\<lambda>acc b. acc * 256 + b) 0 bs"

section \<open>Bit codec (\<open>_to_bits\<close>, \<open>_bits_to_bytes\<close>)\<close>

text \<open>
  \<open>_to_bits\<close> yields, for each byte, \<open>(byte >> shift) & 1\<close> for \<open>shift\<close> from 7 down to 0.
  The generator is consumed once, by \<open>list(...)\<close>: the model is the list it yields.
\<close>

definition byte_bits :: "int \<Rightarrow> int list" where
  "byte_bits byte = map (\<lambda>shift. drop_bit shift byte AND 1) [7, 6, 5, 4, 3, 2, 1, 0 :: nat]"

fun to_bits :: "int list \<Rightarrow> int list" where
  "to_bits [] = []"
| "to_bits (byte # data) = byte_bits byte @ to_bits data"

text \<open>
  \<open>_bits_to_bytes\<close>: the loop carries \<open>out\<close>, \<open>current\<close> and \<open>count\<close>; \<open>out.append(current)\<close>
  raises unless \<open>current\<close> is in \<open>range(256)\<close>. What is left in \<open>current\<close> when the bits run
  out is dropped.
\<close>

fun bits_to_bytes_loop :: "int list \<Rightarrow> int list \<Rightarrow> int \<Rightarrow> nat \<Rightarrow> error + int list" where
  "bits_to_bytes_loop [] out current count = Inr out"
| "bits_to_bytes_loop (b # bits) out current count =
    (if count + 1 = 8 then
       (if 0 \<le> (push_bit 1 current OR b) \<and> (push_bit 1 current OR b) < 256
        then bits_to_bytes_loop bits (out @ [push_bit 1 current OR b]) 0 0
        else Inl ByteRangeError)
     else bits_to_bytes_loop bits out (push_bit 1 current OR b) (count + 1))"

definition bits_to_bytes :: "int list \<Rightarrow> error + int list" where
  "bits_to_bytes bits = bits_to_bytes_loop bits [] 0 0"

section \<open>Length header (\<open>_pack_length\<close>, \<open>_unpack_length\<close>)\<close>

definition pack_length :: "int \<Rightarrow> error + int list" where
  "pack_length len =
    (if len < 0 \<or> len > 0xFFFFFFFF then Inl RangeError else Inr (to_bytes_4_big len))"

definition unpack_length :: "int list \<Rightarrow> error + int" where
  "unpack_length length_bytes =
    (if length length_bytes \<noteq> 4 then Inl FormatError else Inr (from_bytes_big length_bytes))"

section \<open>Embedding (\<open>embed_message\<close>)\<close>

text \<open>
  The local variables of \<open>embed_message\<close> that the pixel loop reads and writes: the list
  \<open>pixels\<close> read from the image, the iterator \<open>flat_bits\<close> (what is left of it) and the list
  \<open>new_pixels\<close> under construction.
\<close>

record embed_state =
  pixels :: "pixel list"
  flat_bits :: "int list"
  new_pixels :: "pixel list"

text \<open>
  One pass of the loop body for the pixel \<open>(r, g, b)\<close>: each \<open>next(flat_bits)\<close> either yields
  a bit, which replaces the channel's lowest bit, or raises \<open>StopIteration\<close>, and then the
  pixel is appended as it stands and the loop continues with the next pixel.
\<close>

definition embed_step :: "pixel \<Rightarrow> embed_state \<Rightarrow> embed_state" where
  "embed_step p s =
    (case p of (r, g, b) \<Rightarrow>
      (case flat_bits s of
         [] \<Rightarrow> s\<lparr>new_pixels := new_pixels s @ [(r, g, b)]\<rparr>
       | r_bit # bits1 \<Rightarrow>
          (case bits1 of
             [] \<Rightarrow> s\<lparr>flat_bits := [],
                      new_pixels := new_pixels s @ [((r AND 0xFE) OR r_bit, g, b)]\<rparr>
           | g_bit # bits2 \<Rightarrow>
              (case bits2 of
                 [] \<Rightarrow> s\<lparr>flat_bits := [],
                          new_pixels := new_pixels s @
                            [((r AND 0xFE) OR r_bit, (g AND 0xFE) OR g_bit, b)]\<rparr>
               | b_bit # bits3 \<Rightarrow>
                   s\<lparr>flat_bits := bits3,
                     new_pixels := new_pixels s @
                       [((r AND 0xFE) OR r_bit, (g AND 0xFE) OR g_bit,
                         (b AND 0xFE) OR b_bit)]\<rparr>))))"

definition embed_loop :: "embed_state \<Rightarrow> embed_state" where
  "embed_loop s = fold embed_step (pixels s) s"

text \<open>
  The body of \<open>embed_message\<close> from the encoding of the message to the end of the loop. It
  returns the outcome together with the local variables at the point where the function
  raises or leaves the loop; before the loop \<open>new_pixels\<close> is empty and nothing has been
  handed to the image.
\<close>

definition embed_run :: "pixel list \<Rightarrow> int list \<Rightarrow> (error + unit) \<times> embed_state" where
  "embed_run px message =
    (let s0 = \<lparr>pixels = px, flat_bits = [], new_pixels = []\<rparr> in
     case utf8_encode message of
       Inl e \<Rightarrow> (Inl e, s0)
     | Inr payload \<Rightarrow>
        (case pack_length (int (length payload)) of
           Inl e \<Rightarrow> (Inl e, s0)
         | Inr header \<Rightarrow>
            (let payload_bits = to_bits (header @ payload);
                 capacity_bits = length (pixels s0) * 3
             in if length payload_bits > capacity_bits
                then (Inl (CapacityError (int capacity_bits div 8)
                             (int (length payload_bits) div 8)), s0)
                else (Inr (), embed_loop (s0\<lparr>flat_bits := payload_bits\<rparr>)))))"

text \<open>What \<open>embed_message\<close> hands to \<open>img.putdata\<close>, or the error it raises.\<close>

definition embed_message :: "pixel list \<Rightarrow> int list \<Rightarrow> error + pixel list" where
  "embed_message px message =
    (case embed_run px message of
       (Inl e, s) \<Rightarrow> Inl e
     | (Inr u, s) \<Rightarrow> Inr (new_pixels s))"

section \<open>Extraction (\<open>extract_message\<close>)\<close>

definition lsb_bits :: "pixel list \<Rightarrow> int list" where
  "lsb_bits px = concat (map (\<lambda>(r, g, b). [r AND 1, g AND 1, b AND 1]) px)"

text \<open>
  \<open>bits[:32]\<close> is \<open>take 32\<close>; \<open>bits[32 : 32 + message_bit_count]\<close> is \<open>take\<close> after \<open>drop 32\<close>,
  the count being a decoded unsigned length and so never negative.
\<close>

definition extract_message :: "pixel list \<Rightarrow> error + int list" where
  "extract_message px =
    (let bits = lsb_bits px;
         length_bits = take 32 bits
     in case bits_to_bytes length_bits of
          Inl e \<Rightarrow> Inl e
        | Inr length_bytes \<Rightarrow>
           (case unpack_length length_bytes of
              Inl e \<Rightarrow> Inl e
            | Inr message_length \<Rightarrow>
               (let message_bit_count = message_length * 8;
                    message_bits = take (nat message_bit_count) (drop 32 bits)
                in if int (length message_bits) < message_bit_count
                   then Inl TruncatedDataError
                   else (case bits_to_bytes message_bits of
                           Inl e \<Rightarrow> Inl e
                         | Inr message_bytes \<Rightarrow> Inr (utf8_decode message_bytes)))))"

section \<open>Capacity report (\<open>compute_bpp\<close>)\<close>

text \<open>
  \<open>BppResult\<close>, the dictionary that \<open>compute_bpp\<close> returns. \<open>used_bpp\<close> is a float in the
  source, the quotient of two integers; the model keeps the exact quotient.
\<close>

record BppResult =
  width :: int
  height :: int
  pixel_count :: int
  capacity_bits :: int
  capacity_bytes :: int
  header_bits :: int
  payload_bits :: int
  total_bits :: int
  used_bpp :: real
  fits :: bool

text \<open>
  \<open>compute_bpp\<close> reads \<open>img.size\<close>, here the arguments \<open>w\<close> and \<open>h\<close>; the field \<open>pixel_count\<close>
  is the entry \<open>"pixels"\<close> of the dictionary. The source's defaults are
  \<open>bits_per_channel = 1\<close> and \<open>channels = 3\<close>.
\<close>

definition compute_bpp :: "int \<Rightarrow> int \<Rightarrow> int list \<Rightarrow> int \<Rightarrow> int \<Rightarrow> error + BppResult" where
  "compute_bpp w h message bits_per_channel n_channels =
    (case utf8_encode message of
       Inl e \<Rightarrow> Inl e
     | Inr payload \<Rightarrow>
        Inr \<lparr>width = w,
             height = h,
             pixel_count = w * h,
             capacity_bits = w * h * n_channels * bits_per_channel,
             capacity_bytes = (w * h * n_channels * bits_per_channel) div 8,
             header_bits = 32,
             payload_bits = int (length payload) * 8,
             total_bits = 32 + int (length payload) * 8,
             used_bpp = (if w * h \<noteq> 0
                         then real_of_int (32 + int (length payload) * 8) / real_of_int (w * h)
                         else 0),
             fits = (32 + int (length payload) * 8 \<le> w * h * n_channels * bits_per_channel)\<rparr>)"

section \<open>Notions used to state the properties\<close>

text \<open>
  A bit is 0 or 1. \<open>msb_value\<close> reads a bit list as a binary numeral, most significant bit
  first, and \<open>chunks8\<close> cuts a list into its full groups of eight, leaving out what remains
  at the end: together they say what the specification asks of \<open>unpackBits\<close>.
\<close>

definition msb_value :: "int list \<Rightarrow> int" where
  "msb_value bs = foldl (\<lambda>acc x. 2 * acc + x) 0 bs"

fun chunks8 :: "int list \<Rightarrow> int list list" where
  "chunks8 (b0 # b1 # b2 # b3 # b4 # b5 # b6 # b7 # rest) =
     [b0, b1, b2, b3, b4, b5, b6, b7] # chunks8 rest"
| "chunks8 bits = []"

definition is_bit :: "int \<Rightarrow> bool" where
  "is_bit b = (b = 0 \<or> b = 1)"

text \<open>
  \<open>set_lsbs cs bits\<close> is what the specification asks of the embedding on a flat channel
  sequence: entry \<open>i\<close> becomes \<open>(cs[i] & 0xFE) | bits[i]\<close> while there are bits, and the
  remaining entries are copied.
\<close>

fun set_lsbs :: "int list \<Rightarrow> int list \<Rightarrow> int list" where
  "set_lsbs [] bits = []"
| "set_lsbs (c # cs) [] = c # cs"
| "set_lsbs (c # cs) (b # bits) = ((c AND 0xFE) OR b) # set_lsbs cs bits"


section \<open>The bit codec\<close>


lemma shift_or_bit: "is_bit b \<Longrightarrow> push_bit 1 c OR b = 2 * c + b"
  by (auto simp: or_one_eq is_bit_def)

lemma is_bit_and_one: "is_bit (x AND 1)"
  unfolding is_bit_def by (simp add: and_one_eq) presburger

lemma length_chunks8: "length (chunks8 bits) = length bits div 8"
  by (induction bits rule: chunks8.induct) simp_all

lemma nth_chunks8:
  "i < length bits div 8 \<Longrightarrow> chunks8 bits ! i = take 8 (drop (8 * i) bits)"
proof (induction bits arbitrary: i rule: chunks8.induct)
  case (1 b0 b1 b2 b3 b4 b5 b6 b7 rest)
  show ?case
  proof (cases i)
    case 0
    then show ?thesis by simp
  next
    case (Suc j)
    with "1.prems" have "j < length rest div 8" by simp
    from "1.IH" [OF this] have "chunks8 rest ! j = take 8 (drop (8 * j) rest)" .
    moreover have "drop (8 * Suc j) (b0 # b1 # b2 # b3 # b4 # b5 # b6 # b7 # rest)
        = drop (8 * j) (drop 8 (b0 # b1 # b2 # b3 # b4 # b5 # b6 # b7 # rest))"
      by (simp add: drop_Cons')
    ultimately show ?thesis using Suc by simp
  qed
qed simp_all

lemma msb_value_bounds:
  "list_all is_bit bs \<Longrightarrow> 0 \<le> msb_value bs \<and> msb_value bs < 2 ^ length bs"
proof (induction bs rule: rev_induct)
  case Nil
  then show ?case by (simp add: msb_value_def)
next
  case (snoc x xs)
  then have "0 \<le> msb_value xs" "msb_value xs < 2 ^ length xs" "x = 0 \<or> x = 1"
    by (simp_all add: is_bit_def)
  then show ?case by (auto simp: msb_value_def)
qed

lemma loop_step:
  assumes "is_bit b"
  shows "bits_to_bytes_loop (b # bits) out current count =
     (if count + 1 = 8 then
        (if 0 \<le> 2 * current + b \<and> 2 * current + b < 256
         then bits_to_bytes_loop bits (out @ [2 * current + b]) 0 0
         else Inl ByteRangeError)
      else bits_to_bytes_loop bits out (2 * current + b) (count + 1))"
  by (simp only: bits_to_bytes_loop.simps shift_or_bit [OF assms])

lemma loop_step8:
  assumes "list_all is_bit [b0, b1, b2, b3, b4, b5, b6, b7]"
  shows "bits_to_bytes_loop (b0 # b1 # b2 # b3 # b4 # b5 # b6 # b7 # rest) out 0 0 =
         bits_to_bytes_loop rest (out @ [msb_value [b0, b1, b2, b3, b4, b5, b6, b7]]) 0 0"
proof -
  have r: "0 \<le> msb_value [b0, b1, b2, b3, b4, b5, b6, b7]"
     "msb_value [b0, b1, b2, b3, b4, b5, b6, b7] < 256"
    using msb_value_bounds [OF assms] by simp_all
  from assms have b: "is_bit b0" "is_bit b1" "is_bit b2" "is_bit b3" "is_bit b4" "is_bit b5"
    "is_bit b6" "is_bit b7" by simp_all
  from r b show ?thesis
    by (simp add: loop_step msb_value_def del: bits_to_bytes_loop.simps)
qed

lemma bits_to_bytes_loop_chunks:
  "list_all is_bit bits \<Longrightarrow>
   bits_to_bytes_loop bits out 0 0 = Inr (out @ map msb_value (chunks8 bits))"
proof (induction bits arbitrary: out rule: chunks8.induct)
  case (1 b0 b1 b2 b3 b4 b5 b6 b7 rest)
  from "1.prems" have h: "list_all is_bit [b0, b1, b2, b3, b4, b5, b6, b7]"
    and t: "list_all is_bit rest" by simp_all
  show ?case
    unfolding loop_step8 [OF h] "1.IH" [OF t] by simp
qed simp_all

lemma bits_to_bytes_chunks:
  "list_all is_bit bits \<Longrightarrow> bits_to_bytes bits = Inr (map msb_value (chunks8 bits))"
  by (simp add: bits_to_bytes_def bits_to_bytes_loop_chunks)

text \<open>
  Claim C7. For every sequence of bits, \<open>_bits_to_bytes\<close> returns, without raising,
  \<open>len(bits) div 8\<close> bytes; byte \<open>i\<close> is the value, most significant bit first, of the
  eight bits from position \<open>8 * i\<close>, and the bits after the last full group of eight are
  dropped.
\<close>

theorem bits_to_bytes_truncates:
  assumes "list_all is_bit bits"
  shows "\<exists>bytes. bits_to_bytes bits = Inr bytes \<and> length bytes = length bits div 8 \<and>
           (\<forall>i < length bits div 8. bytes ! i = msb_value (take 8 (drop (8 * i) bits)))"
proof (intro exI conjI allI impI)
  show "bits_to_bytes bits = Inr (map msb_value (chunks8 bits))"
    by (rule bits_to_bytes_chunks [OF assms])
  show "length (map msb_value (chunks8 bits)) = length bits div 8"
    by (simp add: length_chunks8)
  fix i assume "i < length bits div 8"
  then show "map msb_value (chunks8 bits) ! i = msb_value (take 8 (drop (8 * i) bits))"
    by (simp add: length_chunks8 nth_chunks8)
qed

theorem bits_to_bytes_truncates_witness:
  "list_all is_bit [0, 1, 0, 0, 0, 0, 0, 1, 1, 0, 1] \<and>
   bits_to_bytes [0, 1, 0, 0, 0, 0, 0, 1, 1, 0, 1] = Inr [65]"
proof -
  have h: "list_all is_bit [0, 1, 0, 0, 0, 0, 0, 1, 1, 0, 1]"
    by (simp add: is_bit_def)
  from bits_to_bytes_truncates [OF h] obtain bytes where
    b: "bits_to_bytes [0, 1, 0, 0, 0, 0, 0, 1, 1, 0, 1] = Inr bytes"
    and l: "length bytes = 1"
    and n: "bytes ! 0 = msb_value (take 8 (drop (8 * 0) [0, 1, 0, 0, 0, 0, 0, 1, 1, 0, 1]))"
    by auto
  from l obtain x where x: "bytes = [x]"
    by (cases bytes) auto
  with n have "x = 65" by (simp add: msb_value_def)
  with b x h show ?thesis by simp
qed

section \<open>Extraction\<close>

lemma msb_value_snoc: "msb_value (xs @ [x]) = 2 * msb_value xs + x"
  by (simp add: msb_value_def)

lemma msb_value_append:
  "msb_value (xs @ ys) = msb_value xs * 2 ^ length ys + msb_value ys"
proof (induction ys rule: rev_induct)
  case Nil
  show ?case by (simp add: msb_value_def)
next
  case (snoc y ys)
  have "msb_value (xs @ ys @ [y]) = 2 * msb_value (xs @ ys) + y"
    using msb_value_snoc [of "xs @ ys" y] by simp
  with snoc show ?case by (simp add: msb_value_snoc algebra_simps)
qed

lemma foldl_bytes_chunks:
  "foldl (\<lambda>acc b. acc * 256 + b) a (map msb_value (chunks8 bits)) =
     a * 256 ^ (length bits div 8) + msb_value (take (8 * (length bits div 8)) bits)"
proof (induction bits arbitrary: a rule: chunks8.induct)
  case (1 b0 b1 b2 b3 b4 b5 b6 b7 rest)
  let ?c = "[b0, b1, b2, b3, b4, b5, b6, b7]"
  let ?k = "length rest div 8"
  have t: "take (8 * (length (?c @ rest) div 8)) (?c @ rest) = ?c @ take (8 * ?k) rest"
    by (simp add: take_Cons')
  have l: "length (take (8 * ?k) rest) = 8 * ?k"
    by simp
  have p: "(2::int) ^ (8 * ?k) = 256 ^ ?k"
    by (simp add: power_mult)
  have "msb_value (?c @ take (8 * ?k) rest) =
        msb_value ?c * 256 ^ ?k + msb_value (take (8 * ?k) rest)"
    unfolding msb_value_append l p ..
  with "1.IH" [of "a * 256 + msb_value ?c"] t show ?case
    by (simp add: algebra_simps)
qed (simp_all add: msb_value_def)

lemma from_bytes_big_chunks:
  "length bits = 32 \<Longrightarrow> from_bytes_big (map msb_value (chunks8 bits)) = msb_value bits"
  using foldl_bytes_chunks [of 0 bits] by (simp add: from_bytes_big_def)

lemma lsb_bits_channels: "lsb_bits px = map (\<lambda>c. c AND 1) (channels px)"
  by (induction px) (auto simp: lsb_bits_def channels_def)

lemma length_channels: "length (channels px) = 3 * length px"
  by (induction px) (auto simp: channels_def)

lemma length_lsb_bits: "length (lsb_bits px) = 3 * length px"
  by (simp add: lsb_bits_channels length_channels)

lemma is_bit_lsb_bits: "list_all is_bit (lsb_bits px)"
  by (simp add: lsb_bits_channels list_all_iff is_bit_and_one)

lemma list_all_take: "list_all P xs \<Longrightarrow> list_all P (take n xs)"
  by (auto simp: list_all_iff dest: in_set_takeD)

lemma list_all_drop: "list_all P xs \<Longrightarrow> list_all P (drop n xs)"
  by (auto simp: list_all_iff dest: in_set_dropD)

lemma msb_value_nonneg: "list_all is_bit bs \<Longrightarrow> 0 \<le> msb_value bs"
  using msb_value_bounds by blast

text \<open>What \<open>extract_message\<close> computes, in one equation.\<close>

lemma extract_message_eq:
  "extract_message px =
    (if length (lsb_bits px) < 32 then Inl FormatError
     else if int (length (lsb_bits px)) - 32 < 8 * msb_value (take 32 (lsb_bits px))
       then Inl TruncatedDataError
       else Inr (utf8_decode (map msb_value (chunks8
              (take (nat (8 * msb_value (take 32 (lsb_bits px)))) (drop 32 (lsb_bits px)))))))"
proof -
  let ?bits = "lsb_bits px"
  have b: "list_all is_bit ?bits" by (rule is_bit_lsb_bits)
  have h: "bits_to_bytes (take 32 ?bits) = Inr (map msb_value (chunks8 (take 32 ?bits)))"
    by (rule bits_to_bytes_chunks [OF list_all_take [OF b]])
  show ?thesis
  proof (cases "length ?bits < 32")
    case True
    then have "length (map msb_value (chunks8 (take 32 ?bits))) \<noteq> 4"
      by (simp add: length_chunks8 min_def) 
    with True h show ?thesis
      by (simp add: extract_message_def unpack_length_def)
  next
    case False
    then have l4: "length (map msb_value (chunks8 (take 32 ?bits))) = 4"
      by (simp add: length_chunks8 min_def)
    from False have "length (take 32 ?bits) = 32" by simp
    then have v: "from_bytes_big (map msb_value (chunks8 (take 32 ?bits)))
                  = msb_value (take 32 ?bits)"
      by (rule from_bytes_big_chunks)
    let ?L = "msb_value (take 32 ?bits)"
    have n: "0 \<le> ?L" by (rule msb_value_nonneg [OF list_all_take [OF b]])
    let ?m = "take (nat (?L * 8)) (drop 32 ?bits)"
    have m: "bits_to_bytes ?m = Inr (map msb_value (chunks8 ?m))"
      by (rule bits_to_bytes_chunks [OF list_all_take [OF list_all_drop [OF b]]])
    have c: "(int (length ?m) < ?L * 8) = (int (length ?bits) - 32 < 8 * ?L)"
      using n False by (simp add: min_def) linarith
    from False h l4 v m c show ?thesis
      by (simp add: extract_message_def unpack_length_def Let_def mult.commute)
  qed
qed

text \<open>
  Claim C5, as the code has it. For every channel sequence of fewer than 32 entries
  \<open>extract_message\<close> fails: \<open>bits[:32]\<close> holds fewer than 32 bits, \<open>_bits_to_bytes\<close> makes
  fewer than four bytes of them, and \<open>_unpack_length\<close> raises "Invalid length header"
  (\<open>FormatError\<close>). The source has no check of the number of channels before that.
\<close>

theorem extract_short_header:
  assumes "length (channels px) < 32"
  shows "extract_message px = Inl FormatError"
  using assms by (simp add: extract_message_eq length_lsb_bits length_channels)

theorem extract_short_header_witness:
  "length (channels (replicate 10 (255, 255, 255))) < 32 \<and>
   extract_message (replicate 10 (255, 255, 255)) = Inl FormatError"
  using extract_short_header [of "replicate 10 (255, 255, 255)"]
  by (simp add: length_channels)

text \<open>
  The claim names \<open>TruncatedDataError\<close>, raised before the header is decoded. On an image
  of one pixel the error is the one of \<open>_unpack_length\<close>.
\<close>

theorem extract_one_pixel_counterexample:
  "length (channels [(1, 2, 3)]) < 32 \<and> extract_message [(1, 2, 3)] = Inl FormatError \<and>
   extract_message [(1, 2, 3)] \<noteq> Inl TruncatedDataError"
  by (simp add: extract_message_eq length_lsb_bits length_channels)

text \<open>
  Claim C6, as the code has it. Let a channel sequence have at least 32 entries and let \<open>L\<close>
  be the big-endian value of its first 32 lowest bits. If fewer than \<open>8 * L\<close> entries follow
  the header, \<open>extract_message\<close> raises "Image does not contain a complete message."
  (\<open>TruncatedDataError\<close>) and returns no text; otherwise it returns the decoding of exactly
  \<open>L\<close> bytes, read from the next \<open>8 * L\<close> lowest bits. The error carries no bit count.
\<close>

theorem extract_complete_or_error:
  assumes "32 \<le> length (channels px)"
    and "L = msb_value (take 32 (lsb_bits px))"
  shows "(int (length (channels px)) - 32 < L * 8 \<longrightarrow>
            extract_message px = Inl TruncatedDataError) \<and>
         (\<not> int (length (channels px)) - 32 < L * 8 \<longrightarrow>
            (\<exists>payload. payload = map msb_value (chunks8 (take (nat (L * 8)) (drop 32 (lsb_bits px))))
               \<and> int (length payload) = L
               \<and> extract_message px = Inr (utf8_decode payload)))"
proof -
  have n: "0 \<le> L"
    unfolding assms(2) by (rule msb_value_nonneg [OF list_all_take [OF is_bit_lsb_bits]])
  have len: "length (lsb_bits px) = length (channels px)"
    by (simp add: length_lsb_bits length_channels)
  have e: "extract_message px =
    (if int (length (channels px)) - 32 < L * 8 then Inl TruncatedDataError
     else Inr (utf8_decode (map msb_value (chunks8
              (take (nat (L * 8)) (drop 32 (lsb_bits px)))))))"
    using assms(1) unfolding extract_message_eq [of px] len assms(2)
    by (simp add: mult.commute)
  show ?thesis
  proof (intro conjI impI)
    assume "int (length (channels px)) - 32 < L * 8"
    with e show "extract_message px = Inl TruncatedDataError" by simp
  next
    assume a: "\<not> int (length (channels px)) - 32 < L * 8"
    then have "nat (L * 8) \<le> length (lsb_bits px) - 32"
      using n assms(1) len by linarith
    then have "length (take (nat (L * 8)) (drop 32 (lsb_bits px))) = nat (L * 8)"
      by simp
    then have "int (length (map msb_value (chunks8
              (take (nat (L * 8)) (drop 32 (lsb_bits px)))))) = L"
      using n by (simp add: length_chunks8)
    with e a show "\<exists>payload. payload = map msb_value (chunks8 (take (nat (L * 8)) (drop 32 (lsb_bits px))))
               \<and> int (length payload) = L
               \<and> extract_message px = Inr (utf8_decode payload)"
      by simp
  qed
qed

theorem extract_complete_or_error_witness:
  "32 \<le> length (channels (replicate 10 (0, 0, 0) @ [(0, 1, 0), (1, 0, 0), (0, 0, 0), (1, 0, 0)])) \<and>
   1 = msb_value (take 32 (lsb_bits
         (replicate 10 (0, 0, 0) @ [(0, 1, 0), (1, 0, 0), (0, 0, 0), (1, 0, 0)]))) \<and>
   extract_message (replicate 10 (0, 0, 0) @ [(0, 1, 0), (1, 0, 0), (0, 0, 0), (1, 0, 0)])
     = Inr [0x41]"
proof -
  let ?px = "replicate 10 (0, 0, 0) @ [(0, 1, 0), (1, 0, 0), (0, 0, 0), (1, 0, 0)] :: pixel list"
  have px: "?px = [(0,0,0),(0,0,0),(0,0,0),(0,0,0),(0,0,0),(0,0,0),(0,0,0),(0,0,0),(0,0,0),(0,0,0),
      (0, 1, 0), (1, 0, 0), (0, 0, 0), (1, 0, 0)]"
    by (simp add: numeral_eq_Suc)
  have b: "lsb_bits ?px = [0,0,0,0,0,0,0,0, 0,0,0,0,0,0,0,0, 0,0,0,0,0,0,0,0, 0,0,0,0,0,0,0,1,
      0,1,0,0,0,0,0,1, 0,0]"
    unfolding px by (simp add: lsb_bits_def)
  have h1: "32 \<le> length (channels ?px)" by (simp add: length_channels)
  have h2: "1 = msb_value (take 32 (lsb_bits ?px))"
    unfolding b by (simp add: msb_value_def)
  from extract_complete_or_error [OF h1 h2] h1
  have "extract_message ?px = Inr (utf8_decode (map msb_value (chunks8
          (take (nat (1 * 8)) (drop 32 (lsb_bits ?px))))))"
    by (simp add: length_channels)
  then have "extract_message ?px = Inr [0x41]"
    unfolding b by (simp add: msb_value_def)
  with h1 h2 show ?thesis by blast
qed

text \<open>
  The claim has the error report the bits available and the bits required. Two images, with
  1 of 8 and with 4 of 16 payload bits present, raise the same error value.
\<close>

theorem extract_truncated_counterexample:
  "extract_message (replicate 10 (0, 0, 0) @ [(0, 1, 0)]) = Inl TruncatedDataError \<and>
   extract_message (replicate 10 (0, 0, 0) @ [(1, 0, 0), (0, 0, 0)]) = Inl TruncatedDataError \<and>
   length (channels (replicate 10 (0, 0, 0) @ [(0, 1, 0)])) - 32 = 1 \<and>
   8 * msb_value (take 32 (lsb_bits (replicate 10 (0, 0, 0) @ [(0, 1, 0)]))) = 8 \<and>
   length (channels (replicate 10 (0, 0, 0) @ [(1, 0, 0), (0, 0, 0)])) - 32 = 4 \<and>
   8 * msb_value (take 32 (lsb_bits (replicate 10 (0, 0, 0) @ [(1, 0, 0), (0, 0, 0)]))) = 16"
proof -
  let ?a = "replicate 10 (0, 0, 0) @ [(0, 1, 0)] :: pixel list"
  let ?b = "replicate 10 (0, 0, 0) @ [(1, 0, 0), (0, 0, 0)] :: pixel list"
  have a: "lsb_bits ?a = [0,0,0,0,0,0,0,0, 0,0,0,0,0,0,0,0, 0,0,0,0,0,0,0,0, 0,0,0,0,0,0,0,1, 0]"
    by (simp add: lsb_bits_def numeral_eq_Suc)
  have b: "lsb_bits ?b = [0,0,0,0,0,0,0,0, 0,0,0,0,0,0,0,0, 0,0,0,0,0,0,0,0, 0,0,0,0,0,0,1,0,
     0,0,0,0]"
    by (simp add: lsb_bits_def numeral_eq_Suc)
  have "extract_message ?a = Inl TruncatedDataError"
    unfolding extract_message_eq [of ?a] a by (simp add: msb_value_def)
  moreover have "extract_message ?b = Inl TruncatedDataError"
    unfolding extract_message_eq [of ?b] b by (simp add: msb_value_def)
  moreover have "8 * msb_value (take 32 (lsb_bits ?a)) = 8"
    unfolding a by (simp add: msb_value_def)
  moreover have "8 * msb_value (take 32 (lsb_bits ?b)) = 16"
    unfolding b by (simp add: msb_value_def)
  ultimately show ?thesis by (simp add: length_channels)
qed

text \<open>
  Claim C10. Let \<open>L\<close> be the length decoded from the first 32 lowest bits of \<open>p1\<close>. If \<open>p1\<close>
  and \<open>p2\<close> both have at least \<open>32 + 8 * L\<close> channel entries and agree on the lowest bit of
  each of their first \<open>32 + 8 * L\<close> entries, then \<open>extract_message\<close> returns the same text
  for both: neither the entries after that prefix nor the higher bits matter.
\<close>

theorem extract_prefix_only:
  assumes L: "L = msb_value (take 32 (lsb_bits p1))"
    and l1: "32 + nat (8 * L) \<le> length (channels p1)"
    and l2: "32 + nat (8 * L) \<le> length (channels p2)"
    and eq: "map (\<lambda>c. c AND 1) (take (32 + nat (8 * L)) (channels p1)) =
             map (\<lambda>c. c AND 1) (take (32 + nat (8 * L)) (channels p2))"
  shows "extract_message p1 = extract_message p2 \<and> (\<exists>text. extract_message p1 = Inr text)"
proof -
  let ?n = "32 + nat (8 * L)"
  have t: "take ?n (lsb_bits p1) = take ?n (lsb_bits p2)"
    using eq by (simp add: lsb_bits_channels take_map)
  have h: "take 32 (lsb_bits p) = take 32 (take ?n (lsb_bits p))" for p
    by (simp add: min_def)
  have m: "take (nat (8 * L)) (drop 32 (lsb_bits p)) = drop 32 (take ?n (lsb_bits p))" for p
    by (simp add: drop_take)
  have "L = msb_value (take 32 (take ?n (lsb_bits p1)))"
    by (subst h [symmetric]) (rule L)
  also have "\<dots> = msb_value (take 32 (take ?n (lsb_bits p2)))"
    by (simp only: t)
  also have "\<dots> = msb_value (take 32 (lsb_bits p2))"
    by (simp only: h [symmetric])
  finally have L2: "L = msb_value (take 32 (lsb_bits p2))" .
  have n: "0 \<le> L"
    unfolding L by (rule msb_value_nonneg [OF list_all_take [OF is_bit_lsb_bits]])
  have c1: "\<not> length (lsb_bits p1) < 32" "\<not> int (length (lsb_bits p1)) - 32 < 8 * L"
    using l1 n by (simp_all add: length_lsb_bits length_channels)
  have c2: "\<not> length (lsb_bits p2) < 32" "\<not> int (length (lsb_bits p2)) - 32 < 8 * L"
    using l2 n by (simp_all add: length_lsb_bits length_channels)
  have e1: "extract_message p1 = Inr (utf8_decode (map msb_value (chunks8
              (drop 32 (take ?n (lsb_bits p1))))))"
    using c1 unfolding extract_message_eq [of p1] L [symmetric] m by simp
  have e2: "extract_message p2 = Inr (utf8_decode (map msb_value (chunks8
              (drop 32 (take ?n (lsb_bits p2))))))"
    using c2 unfolding extract_message_eq [of p2] L2 [symmetric] m by simp
  from e1 e2 t show ?thesis by simp
qed

theorem extract_prefix_only_witness:
  "1 = msb_value (take 32 (lsb_bits (replicate 10 (0, 0, 0) @ [(0, 1, 0), (1, 0, 0), (0, 0, 0), (1, 0, 0)]))) \<and>
   32 + nat (8 * 1) \<le> length (channels (replicate 10 (0, 0, 0) @ [(0, 1, 0), (1, 0, 0), (0, 0, 0), (1, 0, 0)])) \<and>
   32 + nat (8 * 1) \<le> length (channels (replicate 10 (2, 4, 6) @ [(8, 1, 254), (3, 2, 0), (0, 0, 0), (1, 1, 1)])) \<and>
   extract_message (replicate 10 (0, 0, 0) @ [(0, 1, 0), (1, 0, 0), (0, 0, 0), (1, 0, 0)]) =
   extract_message (replicate 10 (2, 4, 6) @ [(8, 1, 254), (3, 2, 0), (0, 0, 0), (1, 1, 1)])"
proof -
  let ?p1 = "replicate 10 (0, 0, 0) @ [(0, 1, 0), (1, 0, 0), (0, 0, 0), (1, 0, 0)] :: pixel list"
  let ?p2 = "replicate 10 (2, 4, 6) @ [(8, 1, 254), (3, 2, 0), (0, 0, 0), (1, 1, 1)] :: pixel list"
  have h1: "1 = msb_value (take 32 (lsb_bits ?p1))"
    by (simp add: lsb_bits_def numeral_eq_Suc msb_value_def)
  have h2: "32 + nat (8 * 1) \<le> length (channels ?p1)"
    by (simp add: length_channels)
  have h3: "32 + nat (8 * 1) \<le> length (channels ?p2)"
    by (simp add: length_channels)
  have h4: "map (\<lambda>c. c AND 1) (take (32 + nat (8 * 1)) (channels ?p1)) =
            map (\<lambda>c. c AND 1) (take (32 + nat (8 * 1)) (channels ?p2))"
    by (simp add: channels_def numeral_eq_Suc)
  from extract_prefix_only [OF h1 h2 h3 h4] h1 h2 h3 show ?thesis by blast
qed

section \<open>Embedding\<close>

lemma and_254: "(c::int) AND 254 = 2 * (c div 2 mod 128)"
proof -
  have "c AND 254 = 2 * ((c div 2) AND 127)"
    by (subst and_int_rec) simp
  also have "(c div 2) AND 127 = take_bit 7 (c div 2)"
    by (simp add: take_bit_eq_mask mask_eq_exp_minus_1)
  also have "\<dots> = c div 2 mod 128"
    by (simp add: take_bit_eq_mod)
  finally show ?thesis .
qed

lemma write_lsb_value:
  assumes "is_bit b"
  shows "(c AND 0xFE) OR b = 2 * (c div 2 mod 128) + b"
proof -
  have "(2 * (c div 2 mod 128)) OR b = 2 * (c div 2 mod 128) + b"
    using assms by (auto simp: is_bit_def or_one_eq)
  then show ?thesis by (simp add: and_254)
qed

lemma write_lsb_range:
  assumes "is_bit b"
  shows "0 \<le> (c AND 0xFE) OR b \<and> (c AND 0xFE) OR b \<le> 255"
proof -
  have "0 \<le> c div 2 mod 128" "c div 2 mod 128 < 128" by simp_all
  with assms show ?thesis
    unfolding write_lsb_value [OF assms] is_bit_def by auto
qed

lemma write_lsb_div2:
  assumes "is_bit b" "0 \<le> c" "c \<le> 255"
  shows "((c AND 0xFE) OR b) div 2 = c div 2"
proof -
  have "c div 2 mod 128 = c div 2" using assms by simp
  with assms(1) show ?thesis unfolding write_lsb_value [OF assms(1)] is_bit_def by auto
qed


lemma set_lsbs_Nil [simp]: "set_lsbs cs [] = cs"
  by (cases cs) simp_all

lemma length_set_lsbs [simp]: "length (set_lsbs cs bits) = length cs"
  by (induction cs bits rule: set_lsbs.induct) simp_all

lemma set_lsbs_append:
  "set_lsbs (xs @ ys) bits =
     set_lsbs xs (take (length xs) bits) @ set_lsbs ys (drop (length xs) bits)"
  by (induction xs bits rule: set_lsbs.induct) simp_all

lemma nth_set_lsbs_written:
  "i < length bits \<Longrightarrow> i < length cs \<Longrightarrow>
   set_lsbs cs bits ! i = (cs ! i AND 0xFE) OR bits ! i"
proof (induction cs bits arbitrary: i rule: set_lsbs.induct)
  case (3 c cs b bits)
  then show ?case by (cases i) simp_all
qed simp_all

lemma nth_set_lsbs_kept:
  "length bits \<le> i \<Longrightarrow> set_lsbs cs bits ! i = cs ! i"
proof (induction cs bits arbitrary: i rule: set_lsbs.induct)
  case (3 c cs b bits)
  then show ?case by (cases i) simp_all
qed simp_all


lemma range_set_lsbs:
  "list_all is_bit bits \<Longrightarrow> list_all (\<lambda>c. 0 \<le> c \<and> c \<le> 255) cs \<Longrightarrow>
   list_all (\<lambda>c. 0 \<le> c \<and> c \<le> 255) (set_lsbs cs bits)"
proof (induction cs bits rule: set_lsbs.induct)
  case (3 c cs b bits)
  then have "is_bit b" by simp
  from write_lsb_range [OF this, of c] 3 show ?case by simp
qed simp_all

lemma channels_append: "channels (xs @ ys) = channels xs @ channels ys"
  by (simp add: channels_def)

lemma channels_single: "channels [(r, g, b)] = [r, g, b]"
  by (simp add: channels_def)

lemma embed_step_pixels: "pixels (embed_step p s) = pixels s"
  by (simp add: embed_step_def split: prod.splits list.splits)

lemma embed_step_flat_bits: "flat_bits (embed_step p s) = drop 3 (flat_bits s)"
  by (simp add: embed_step_def split: prod.splits list.splits)

lemma embed_step_new_pixels:
  "channels (new_pixels (embed_step p s)) =
     channels (new_pixels s) @ set_lsbs (channels [p]) (take 3 (flat_bits s))"
  by (simp add: embed_step_def channels_append channels_single split: prod.splits list.splits)

lemma embed_step_length: "length (new_pixels (embed_step p s)) = Suc (length (new_pixels s))"
  by (simp add: embed_step_def split: prod.splits list.splits)

lemma fold_embed_step_pixels: "pixels (fold embed_step px s) = pixels s"
  by (induction px arbitrary: s) (simp_all add: embed_step_pixels)

lemma fold_embed_step_length:
  "length (new_pixels (fold embed_step px s)) = length (new_pixels s) + length px"
  by (induction px arbitrary: s) (simp_all add: embed_step_length)

lemma fold_embed_step_new_pixels:
  "channels (new_pixels (fold embed_step px s)) =
     channels (new_pixels s) @ set_lsbs (channels px) (flat_bits s)"
proof (induction px arbitrary: s)
  case Nil
  show ?case by (simp add: channels_def)
next
  case (Cons p px)
  have c: "channels (p # px) = channels [p] @ channels px"
    using channels_append [of "[p]" px] by simp
  have l: "length (channels [p]) = 3"
    by (simp add: length_channels)
  show ?case
    unfolding c set_lsbs_append l
    by (simp add: Cons.IH embed_step_new_pixels embed_step_flat_bits)
qed

lemma length_byte_bits: "length (byte_bits b) = 8"
  by (simp add: byte_bits_def)

lemma length_to_bits: "length (to_bits bs) = 8 * length bs"
  by (induction bs) (simp_all add: length_byte_bits)

lemma is_bit_byte_bits: "list_all is_bit (byte_bits b)"
  by (simp add: byte_bits_def is_bit_and_one)

lemma is_bit_to_bits: "list_all is_bit (to_bits bs)"
  by (induction bs) (simp_all add: is_bit_byte_bits)


lemma length_to_bytes_4_big: "length (to_bytes_4_big n) = 4"
  by (simp add: to_bytes_4_big_def)

lemma pack_length_ok:
  "n \<le> 0xFFFFFFFF \<Longrightarrow> pack_length (int n) = Inr (to_bytes_4_big (int n))"
  by (simp add: pack_length_def)

lemma pack_length_too_long:
  "0xFFFFFFFF < n \<Longrightarrow> pack_length (int n) = Inl RangeError"
  by (simp add: pack_length_def)

lemma length_frame_bits:
  "length (to_bits (to_bytes_4_big n @ payload)) = 32 + 8 * length payload"
  by (simp add: length_to_bits length_to_bytes_4_big)

lemma channels_Nil: "channels [] = []"
  by (simp add: channels_def)

lemma embed_loop_channels:
  "channels (new_pixels (embed_loop \<lparr>pixels = px, flat_bits = bits, new_pixels = []\<rparr>)) =
     set_lsbs (channels px) bits"
  by (simp add: embed_loop_def fold_embed_step_new_pixels channels_Nil)

lemma embed_loop_length:
  "length (new_pixels (embed_loop \<lparr>pixels = px, flat_bits = bits, new_pixels = []\<rparr>)) =
     length px"
  by (simp add: embed_loop_def fold_embed_step_length)

lemma embed_loop_pixels: "pixels (embed_loop s) = pixels s"
  by (simp add: embed_loop_def fold_embed_step_pixels)

text \<open>What \<open>embed_run\<close> computes once the message is encoded.\<close>

lemma embed_run_eq:
  assumes "utf8_encode message = Inr payload"
  shows "embed_run px message =
    (if 0xFFFFFFFF < length payload
       then (Inl RangeError, \<lparr>pixels = px, flat_bits = [], new_pixels = []\<rparr>)
     else if length (channels px) < 32 + 8 * length payload
       then (Inl (CapacityError (int (length (channels px)) div 8) (4 + int (length payload))),
             \<lparr>pixels = px, flat_bits = [], new_pixels = []\<rparr>)
     else (Inr (), embed_loop \<lparr>pixels = px,
             flat_bits = to_bits (to_bytes_4_big (int (length payload)) @ payload),
             new_pixels = []\<rparr>))"
proof (cases "0xFFFFFFFF < length payload")
  case True
  then show ?thesis
    using assms by (simp add: embed_run_def pack_length_too_long)
next
  case False
  then have p: "pack_length (int (length payload)) = Inr (to_bytes_4_big (int (length payload)))"
    by (simp add: pack_length_ok)
  have d: "(32 + int (length payload) * 8) div 8 = 4 + int (length payload)"
    by simp
  from False show ?thesis
    using assms p
    by (simp add: embed_run_def Let_def length_frame_bits length_channels d mult.commute)
qed

lemma embed_run_encode_error:
  "utf8_encode message = Inl e \<Longrightarrow>
   embed_run px message = (Inl e, \<lparr>pixels = px, flat_bits = [], new_pixels = []\<rparr>)"
  by (simp add: embed_run_def)

lemma embed_message_eq:
  assumes "utf8_encode message = Inr payload"
  shows "embed_message px message =
    (if 0xFFFFFFFF < length payload then Inl RangeError
     else if length (channels px) < 32 + 8 * length payload
       then Inl (CapacityError (int (length (channels px)) div 8) (4 + int (length payload)))
     else Inr (new_pixels (embed_loop \<lparr>pixels = px,
             flat_bits = to_bits (to_bytes_4_big (int (length payload)) @ payload),
             new_pixels = []\<rparr>)))"
  unfolding embed_message_def embed_run_eq [OF assms] by simp

lemma embed_message_InrD:
  assumes "embed_message px message = Inr out"
  shows "\<exists>payload. utf8_encode message = Inr payload \<and> length payload \<le> 0xFFFFFFFF \<and>
           32 + 8 * length payload \<le> length (channels px) \<and>
           channels out = set_lsbs (channels px)
             (to_bits (to_bytes_4_big (int (length payload)) @ payload)) \<and>
           length out = length px"
proof (cases "utf8_encode message")
  case (Inl e)
  with assms show ?thesis
    by (simp add: embed_message_def embed_run_encode_error)
next
  case (Inr payload)
  from assms show ?thesis
    unfolding embed_message_eq [OF Inr]
    by (auto simp: Inr embed_loop_channels embed_loop_length split: if_splits)
qed

lemma utf8_encode_ascii:
  "list_all (\<lambda>c. 0 \<le> c \<and> c < 0x80) cs \<Longrightarrow> utf8_encode cs = Inr cs"
  by (induction cs) (simp_all add: utf8_encode_cp_def)

lemma utf8_encode_replicate_a: "utf8_encode (replicate n 97) = Inr (replicate n 97)"
  by (rule utf8_encode_ascii) (simp add: list_all_iff)

text \<open>
  Claim C4. Whenever \<open>embed_message\<close> succeeds, the output has as many channel entries as
  the input. With \<open>bits\<close> the frame bits (32 header bits and 8 per payload byte), every entry
  \<open>i\<close> below \<open>len(bits)\<close> is \<open>(input[i] & 0xFE) | bits[i]\<close>, which for an input entry in
  \<open>[0, 255]\<close> leaves every bit but the lowest as it was, and every entry from \<open>len(bits)\<close> on
  is the input entry.
\<close>

theorem embed_frame_effect:
  assumes "embed_message px message = Inr out"
  shows "\<exists>payload bits. utf8_encode message = Inr payload \<and>
           bits = to_bits (to_bytes_4_big (int (length payload)) @ payload) \<and>
           length bits = 32 + 8 * length payload \<and>
           length bits \<le> length (channels px) \<and>
           length (channels out) = length (channels px) \<and>
           (\<forall>i < length bits.
              channels out ! i = (channels px ! i AND 0xFE) OR bits ! i \<and>
              (0 \<le> channels px ! i \<and> channels px ! i \<le> 255 \<longrightarrow>
                 channels out ! i div 2 = channels px ! i div 2)) \<and>
           (\<forall>i. length bits \<le> i \<and> i < length (channels px) \<longrightarrow>
              channels out ! i = channels px ! i)"
proof -
  from embed_message_InrD [OF assms] obtain payload where
    p: "utf8_encode message = Inr payload"
    and c: "32 + 8 * length payload \<le> length (channels px)"
    and o: "channels out = set_lsbs (channels px)
             (to_bits (to_bytes_4_big (int (length payload)) @ payload))"
    by blast
  let ?bits = "to_bits (to_bytes_4_big (int (length payload)) @ payload)"
  have l: "length ?bits = 32 + 8 * length payload"
    by (rule length_frame_bits)
  have b: "list_all is_bit ?bits"
    by (rule is_bit_to_bits)
  have w: "channels out ! i = (channels px ! i AND 0xFE) OR ?bits ! i \<and>
           (0 \<le> channels px ! i \<and> channels px ! i \<le> 255 \<longrightarrow>
              channels out ! i div 2 = channels px ! i div 2)" if "i < length ?bits" for i
  proof -
    from that c l have i: "i < length (channels px)" by simp
    have e: "channels out ! i = (channels px ! i AND 0xFE) OR ?bits ! i"
      unfolding o by (rule nth_set_lsbs_written [OF that i])
    from b that have "is_bit (?bits ! i)"
      by (simp add: list_all_length)
    with e show ?thesis
      by (simp add: write_lsb_div2)
  qed
  have k: "channels out ! i = channels px ! i" if "length ?bits \<le> i" for i
    unfolding o by (rule nth_set_lsbs_kept [OF that])
  show ?thesis
  proof (rule exI [of _ payload], rule exI [of _ ?bits], intro conjI allI impI)
    show "utf8_encode message = Inr payload" by (rule p)
    show "?bits = ?bits" ..
    show "length ?bits = 32 + 8 * length payload" by (rule l)
    show "length ?bits \<le> length (channels px)" using l c by simp
    show "length (channels out) = length (channels px)" by (simp add: o)
  next
    fix i assume "i < length ?bits"
    from w [OF this] show "channels out ! i = (channels px ! i AND 0xFE) OR ?bits ! i" ..
  next
    fix i assume "i < length ?bits"
      and "0 \<le> channels px ! i \<and> channels px ! i \<le> 255"
    with w [of i] show "channels out ! i div 2 = channels px ! i div 2" by blast
  next
    fix i assume "length ?bits \<le> i \<and> i < length (channels px)"
    then show "channels out ! i = channels px ! i" using k [of i] by blast
  qed
qed

text \<open>
  Claim C9. If every channel entry of the input lies in \<open>[0, 255]\<close> and \<open>embed_message\<close>
  succeeds, every channel entry of the output lies in \<open>[0, 255]\<close>.
\<close>

theorem embed_range:
  assumes "embed_message px message = Inr out"
    and "list_all (\<lambda>c. 0 \<le> c \<and> c \<le> 255) (channels px)"
  shows "list_all (\<lambda>c. 0 \<le> c \<and> c \<le> 255) (channels out)"
proof -
  from embed_message_InrD [OF assms(1)] obtain payload where
    "channels out = set_lsbs (channels px)
       (to_bits (to_bytes_4_big (int (length payload)) @ payload))"
    by blast
  then show ?thesis
    by (simp add: range_set_lsbs [OF is_bit_to_bits assms(2)])
qed

text \<open>
  Claim C3. \<open>embed_message\<close> never changes the list \<open>pixels\<close> it read, whether it succeeds
  or raises; and when it raises (a \<open>CapacityError\<close> or any other error), \<open>new_pixels\<close> is
  still empty and no pixel list is handed to the image.
\<close>

theorem embed_atomic:
  "pixels (snd (embed_run px message)) = px \<and>
   (\<forall>e. fst (embed_run px message) = Inl e \<longrightarrow>
      new_pixels (snd (embed_run px message)) = [] \<and> embed_message px message = Inl e)"
proof (cases "utf8_encode message")
  case (Inl e)
  then show ?thesis
    by (simp add: embed_message_def embed_run_encode_error)
next
  case (Inr payload)
  show ?thesis
    unfolding embed_message_def embed_run_eq [OF Inr]
    by (simp add: embed_loop_pixels)
qed

text \<open>
  Claim C2, as the code has it. For a message whose UTF-8 encoding \<open>payload\<close> is at most
  \<open>2^32 - 1\<close> bytes long, \<open>embed_message\<close> raises \<open>CapacityError\<close> exactly when the frame
  bit count \<open>32 + 8 * len(payload)\<close> exceeds the number of channel entries; the error reports
  the capacity \<open>len(channels) div 8\<close> and the size needed, the bit count over 8 rounded up.
  Otherwise it succeeds.
\<close>

theorem embed_capacity_error:
  assumes "utf8_encode message = Inr payload"
    and "length payload \<le> 0xFFFFFFFF"
  shows "(length (channels px) < 32 + 8 * length payload \<longrightarrow>
            embed_message px message =
              Inl (CapacityError (int (length (channels px)) div 8)
                     ((int (32 + 8 * length payload) + 7) div 8))) \<and>
         (32 + 8 * length payload \<le> length (channels px) \<longrightarrow>
            (\<exists>out. embed_message px message = Inr out))"
proof -
  have "(int (32 + 8 * length payload) + 7) div 8 = 4 + int (length payload)"
    by simp
  with assms(2) show ?thesis
    unfolding embed_message_eq [OF assms(1)] by simp
qed

text \<open>
  Without the bound on the length the claim fails: a message of \<open>2^32\<close> bytes exceeds the
  capacity of an image of one pixel, yet the error is the \<open>RangeError\<close> of \<open>_pack_length\<close>,
  raised before the capacity is looked at.
\<close>

theorem embed_huge_message_counterexample:
  "length (channels [(0, 0, 0)]) < 32 + 8 * length (replicate 4294967296 (97::int)) \<and>
   utf8_encode (replicate 4294967296 97) = Inr (replicate 4294967296 97) \<and>
   embed_message [(0, 0, 0)] (replicate 4294967296 97) = Inl RangeError"
  by (simp add: embed_message_eq [OF utf8_encode_replicate_a] utf8_encode_replicate_a
      length_channels)

lemma replicate_10: "replicate 10 x = [x, x, x, x, x, x, x, x, x, x]"
  by (simp add: numeral_eq_Suc)

lemma replicate_11: "replicate 11 x = [x, x, x, x, x, x, x, x, x, x, x]"
  by (simp add: numeral_eq_Suc)

lemma frame_bits_empty:
  "to_bits (to_bytes_4_big 0) =
    [0,0,0,0,0,0,0,0, 0,0,0,0,0,0,0,0, 0,0,0,0,0,0,0,0, 0,0,0,0,0,0,0,0]"
  by (simp add: to_bytes_4_big_def byte_bits_def)

lemma embed_empty_example:
  "embed_message (replicate 11 (255, 128, 7)) [] =
     Inr (replicate 10 (254, 128, 6) @ [(254, 128, 7)])"
proof -
  have e: "utf8_encode [] = Inr []" by simp
  have c: "\<not> length (channels (replicate 11 (255, 128, 7))) < 32 + 8 * length ([]::int list)"
    by (simp add: length_channels)
  have "embed_message (replicate 11 (255, 128, 7)) [] =
     Inr (new_pixels (embed_loop \<lparr>pixels = replicate 11 (255, 128, 7),
             flat_bits = to_bits (to_bytes_4_big (int (length ([]::int list))) @ []),
             new_pixels = []\<rparr>))"
    using c unfolding embed_message_eq [OF e] by simp
  also have "\<dots> = Inr (replicate 10 (254, 128, 6) @ [(254, 128, 7)])"
    by (simp add: frame_bits_empty replicate_10 replicate_11 embed_loop_def embed_step_def)
  finally show ?thesis .
qed

theorem embed_frame_effect_witness:
  "embed_message (replicate 11 (255, 128, 7)) [] =
     Inr (replicate 10 (254, 128, 6) @ [(254, 128, 7)]) \<and>
   length (channels (replicate 10 (254, 128, 6) @ [(254, 128, 7)])) =
     length (channels (replicate 11 (255, 128, 7))) \<and>
   channels (replicate 10 (254, 128, 6) @ [(254, 128, 7)]) ! 0 =
     (channels (replicate 11 (255, 128, 7)) ! 0 AND 0xFE) OR 0 \<and>
   channels (replicate 10 (254, 128, 6) @ [(254, 128, 7)]) ! 32 =
     channels (replicate 11 (255, 128, 7)) ! 32"
proof -
  let ?px = "replicate 11 (255, 128, 7) :: pixel list"
  let ?out = "replicate 10 (254, 128, 6) @ [(254, 128, 7)] :: pixel list"
  from embed_frame_effect [OF embed_empty_example] obtain payload bits where
    p: "utf8_encode [] = Inr payload"
    and b: "bits = to_bits (to_bytes_4_big (int (length payload)) @ payload)"
    and l: "length bits = 32 + 8 * length payload"
    and n: "length (channels ?out) = length (channels ?px)"
    and w: "\<forall>i < length bits. channels ?out ! i = (channels ?px ! i AND 0xFE) OR bits ! i \<and>
              (0 \<le> channels ?px ! i \<and> channels ?px ! i \<le> 255 \<longrightarrow>
                 channels ?out ! i div 2 = channels ?px ! i div 2)"
    and k: "\<forall>i. length bits \<le> i \<and> i < length (channels ?px) \<longrightarrow>
              channels ?out ! i = channels ?px ! i"
    by blast
  from p have "payload = []" by simp
  with b l have b0: "bits ! 0 = 0" and l32: "length bits = 32"
    by (simp_all add: frame_bits_empty)
  from w l32 b0 have "channels ?out ! 0 = (channels ?px ! 0 AND 0xFE) OR 0"
    by (metis zero_less_numeral)
  moreover from k l32 have "channels ?out ! 32 = channels ?px ! 32"
    by (simp add: length_channels)
  ultimately show ?thesis using embed_empty_example n by blast
qed

theorem embed_range_witness:
  "embed_message (replicate 11 (255, 128, 7)) [] =
     Inr (replicate 10 (254, 128, 6) @ [(254, 128, 7)]) \<and>
   list_all (\<lambda>c. 0 \<le> c \<and> c \<le> 255) (channels (replicate 11 (255, 128, 7))) \<and>
   list_all (\<lambda>c. 0 \<le> c \<and> c \<le> 255)
     (channels (replicate 10 (254, 128, 6) @ [(254, 128, 7)]))"
proof -
  have h: "list_all (\<lambda>c. 0 \<le> c \<and> c \<le> 255) (channels (replicate 11 (255, 128, 7)))"
    by (simp add: channels_def replicate_11)
  from embed_range [OF embed_empty_example h] h embed_empty_example show ?thesis by blast
qed

theorem embed_atomic_witness:
  "fst (embed_run [(1, 2, 3), (4, 5, 6), (7, 8, 9), (10, 11, 12)] []) = Inl (CapacityError 1 4) \<and>
   pixels (snd (embed_run [(1, 2, 3), (4, 5, 6), (7, 8, 9), (10, 11, 12)] [])) =
     [(1, 2, 3), (4, 5, 6), (7, 8, 9), (10, 11, 12)] \<and>
   new_pixels (snd (embed_run [(1, 2, 3), (4, 5, 6), (7, 8, 9), (10, 11, 12)] [])) = [] \<and>
   embed_message [(1, 2, 3), (4, 5, 6), (7, 8, 9), (10, 11, 12)] [] = Inl (CapacityError 1 4)"
proof -
  have e: "utf8_encode [] = Inr []" by simp
  have f: "fst (embed_run [(1, 2, 3), (4, 5, 6), (7, 8, 9), (10, 11, 12)] []) =
           Inl (CapacityError 1 4)"
    unfolding embed_run_eq [OF e] by (simp add: length_channels)
  with embed_atomic [of "[(1, 2, 3), (4, 5, 6), (7, 8, 9), (10, 11, 12)]" "[]"]
  show ?thesis by blast
qed

theorem embed_capacity_error_witness:
  "utf8_encode [] = Inr [] \<and> length ([]::int list) \<le> 0xFFFFFFFF \<and>
   length (channels [(0, 0, 0), (0, 0, 0), (0, 0, 0), (0, 0, 0)]) = 12 \<and>
   embed_message [(0, 0, 0), (0, 0, 0), (0, 0, 0), (0, 0, 0)] [] = Inl (CapacityError 1 4)"
proof -
  have e: "utf8_encode [] = Inr []" by simp
  have l: "length ([]::int list) \<le> 0xFFFFFFFF" by simp
  have c: "length (channels [(0, 0, 0), (0, 0, 0), (0, 0, 0), (0, 0, 0)]) = 12"
    by (simp add: length_channels)
  from embed_capacity_error [OF e l, of "[(0, 0, 0), (0, 0, 0), (0, 0, 0), (0, 0, 0)]"] c
  have "embed_message [(0, 0, 0), (0, 0, 0), (0, 0, 0), (0, 0, 0)] [] = Inl (CapacityError 1 4)"
    by simp
  with e l c show ?thesis by blast
qed

section \<open>UTF-8: decoding what was encoded\<close>





















section \<open>Round trip\<close>







section \<open>The capacity report\<close>

text \<open>
  Claim C8. For every width, height and message whose UTF-8 encoding is \<open>payload\<close>, the
  report of \<open>compute_bpp\<close> (with the defaults, one bit per channel and three channels) has
  \<open>header_bits = 32\<close>, \<open>payload_bits = 8 * len(payload)\<close>, \<open>total_bits\<close> their sum,
  \<open>capacity_bits = width * height * 3\<close>, \<open>capacity_bytes = capacity_bits div 8\<close>,
  \<open>used_bpp = total_bits / pixels\<close> (0 for no pixel) and \<open>fits = (total_bits \<le>
  capacity_bits)\<close>; and any message with a payload of the same length gets the same report.
\<close>

theorem compute_bpp_report:
  assumes "utf8_encode message = Inr payload"
  shows "\<exists>r. compute_bpp w h message 1 3 = Inr r \<and>
           width r = w \<and> height r = h \<and> pixel_count r = w * h \<and>
           header_bits r = 32 \<and>
           payload_bits r = int (length payload) * 8 \<and>
           total_bits r = header_bits r + payload_bits r \<and>
           capacity_bits r = w * h * 3 \<and>
           capacity_bytes r = capacity_bits r div 8 \<and>
           used_bpp r = (if w * h = 0 then 0
                         else real_of_int (total_bits r) / real_of_int (w * h)) \<and>
           fits r = (total_bits r \<le> capacity_bits r) \<and>
           (\<forall>message' payload'.
              utf8_encode message' = Inr payload' \<and> length payload' = length payload \<longrightarrow>
              compute_bpp w h message' 1 3 = Inr r)"
  using assms by (simp add: compute_bpp_def)

theorem compute_bpp_report_witness:
  "utf8_encode [0x73, 0x65, 0x63, 0x72, 0x65, 0x74] = Inr [0x73, 0x65, 0x63, 0x72, 0x65, 0x74] \<and>
   (\<exists>r. compute_bpp 100 100 [0x73, 0x65, 0x63, 0x72, 0x65, 0x74] 1 3 = Inr r \<and>
        header_bits r = 32 \<and> payload_bits r = 48 \<and> total_bits r = 80 \<and>
        capacity_bits r = 30000 \<and> capacity_bytes r = 3750 \<and> used_bpp r = 80 / 10000 \<and>
        fits r)"
proof -
  have h: "utf8_encode [0x73, 0x65, 0x63, 0x72, 0x65, 0x74] = Inr [0x73, 0x65, 0x63, 0x72, 0x65, 0x74]"
    by (simp add: utf8_encode_cp_def)
  from compute_bpp_report [OF h, of 100 100] obtain r where
    "compute_bpp 100 100 [0x73, 0x65, 0x63, 0x72, 0x65, 0x74] 1 3 = Inr r"
    "header_bits r = 32" "payload_bits r = int (length [0x73, 0x65, 0x63, 0x72, 0x65, 0x74 :: int]) * 8"
    "total_bits r = header_bits r + payload_bits r" "capacity_bits r = 100 * 100 * 3"
    "capacity_bytes r = capacity_bits r div 8"
    "used_bpp r = (if (100::int) * 100 = 0 then 0
                   else real_of_int (total_bits r) / real_of_int (100 * 100))"
    "fits r = (total_bits r \<le> capacity_bits r)"
    by blast
  then show ?thesis using h by (intro conjI exI [of _ r]) simp_all
qed

end
